theory Spec2Isabelle
  imports Complex_Main "HOL-Library.AList" "HOL-Library.Char_ord" "HOL-Library.List_Lexorder"
    "HOL-Library.Product_Lexorder" "HOL-Library.Option_ord"
begin

section \<open>Data model\<close>

text \<open>
  The attribute dictionary stored for every connection,
  \<^verbatim>\<open>{"mode": mode, "time": time, "cost": cost}\<close>. Python's numbers are modelled as exact
  reals.
\<close>

record props =
  mode :: string
  time :: real
  cost :: real

datatype pyval = Str string | Num real

datatype error = KeyError | TypeError

text \<open>\<^verbatim>\<open>props[key]\<close>: the three keys the dictionary has; any other key raises KeyError.\<close>

definition getitem :: "props \<Rightarrow> string \<Rightarrow> error + pyval" where
  "getitem p k =
     (if k = ''mode'' then Inr (Str (mode p))
      else if k = ''time'' then Inr (Num (time p))
      else if k = ''cost'' then Inr (Num (cost p))
      else Inl KeyError)"

text \<open>
  \<^verbatim>\<open>self.edges\<close> is a Python dict keyed by \<^verbatim>\<open>(origin, destination)\<close>. It keeps insertion
  order, and an assignment to a key that is present replaces the value in place: this is an
  association list under \<^const>\<open>AList.update\<close>.
\<close>

type_synonym edge_key = "string \<times> string"

record KnowledgeBase =
  edges :: "(edge_key \<times> props) list"

definition init :: KnowledgeBase where
  "init = \<lparr>edges = []\<rparr>"

definition contains :: "KnowledgeBase \<Rightarrow> edge_key \<Rightarrow> bool" where
  "contains kb k = (k \<in> set (map fst (edges kb)))"

definition add_edge ::
  "KnowledgeBase \<Rightarrow> string \<Rightarrow> string \<Rightarrow> string \<Rightarrow> real \<Rightarrow> real \<Rightarrow> bool \<Rightarrow> KnowledgeBase" where
  "add_edge kb u v m t c bidirectional =
     (let kb1 = kb\<lparr>edges := AList.update (u, v) \<lparr>mode = m, time = t, cost = c\<rparr> (edges kb)\<rparr>
      in if bidirectional
         then kb1\<lparr>edges := AList.update (v, u) \<lparr>mode = m, time = t, cost = c\<rparr> (edges kb1)\<rparr>
         else kb1)"

definition neighbors :: "KnowledgeBase \<Rightarrow> string \<Rightarrow> (string \<times> props) list" where
  "neighbors kb node = [(b, p). ((a, b), p) \<leftarrow> edges kb, a = node]"

subsection \<open>Inference rules\<close>

type_synonym fact = "string \<times> string \<times> string \<times> real \<times> real"

definition add_fact :: "bool \<Rightarrow> fact \<Rightarrow> KnowledgeBase \<Rightarrow> KnowledgeBase" where
  "add_fact bidirectional f kb = (case f of (u, v, m, t, c) \<Rightarrow> add_edge kb u v m t c bidirectional)"

definition symmetry_facts :: "KnowledgeBase \<Rightarrow> fact list" where
  "symmetry_facts kb =
     [(v, u, mode p, time p, cost p). ((u, v), p) \<leftarrow> edges kb, \<not> contains kb (v, u)]"

definition make_bidirectional :: "KnowledgeBase \<Rightarrow> KnowledgeBase" where
  "make_bidirectional kb = fold (add_fact False) (symmetry_facts kb) kb"

definition transfer_facts :: "KnowledgeBase \<Rightarrow> real \<Rightarrow> fact list" where
  "transfer_facts kb penalty_time =
     [(b, d, ''walk'', penalty_time, 0).
        ((a, b), props1) \<leftarrow> edges kb, ((c, d), props2) \<leftarrow> edges kb,
        a = c \<and> b \<noteq> d \<and> mode props1 \<noteq> mode props2, \<not> contains kb (b, d)]"

definition add_transfers :: "KnowledgeBase \<Rightarrow> real \<Rightarrow> KnowledgeBase" where
  "add_transfers kb penalty_time = fold (add_fact True) (transfer_facts kb penalty_time) kb"

section \<open>Search\<close>

text \<open>
  A queue entry is the tuple \<^verbatim>\<open>(acc, node, prev_mode, path)\<close>; tuples, strings and lists
  compare lexicographically. \<^verbatim>\<open>heappop\<close> returns the least entry of the heap, so the heap is
  modelled by the list of its entries and the pop by the removal of the least one. The order
  used here puts \<^verbatim>\<open>None\<close> below every string, where Python would raise TypeError; no such
  comparison happens, since the only entry without a previous mode is the initial one, which
  is popped from a heap of one element before anything is pushed. The loop pops only from a
  non-empty queue.
\<close>

type_synonym entry = "real \<times> string \<times> string option \<times> string list"

type_synonym visited = "string \<times> string option \<rightharpoonup> real"

datatype total = Fin real | PInf

type_synonym route = "string list option \<times> total"

definition heappush :: "entry list \<Rightarrow> entry \<Rightarrow> entry list" where
  "heappush pq e = pq @ [e]"

definition heappop :: "entry list \<Rightarrow> entry \<times> entry list" where
  "heappop pq = (let e = fold min (tl pq) (hd pq) in (e, remove1 e pq))"

text \<open>Truth value of \<^verbatim>\<open>prev_mode\<close>: \<^verbatim>\<open>None\<close> and the empty string are false.\<close>

fun truthy :: "string option \<Rightarrow> bool" where
  "truthy None = False"
| "truthy (Some s) = (s \<noteq> [])"

definition penalty_of :: "real \<Rightarrow> string option \<Rightarrow> string \<Rightarrow> real" where
  "penalty_of transfer_penalty prev_mode next_mode =
     (if truthy prev_mode \<and> prev_mode \<noteq> Some next_mode then transfer_penalty else 0)"

text \<open>The body of the loop over \<^verbatim>\<open>kb.neighbors(node)\<close>, for one neighbour.\<close>

fun relax ::
  "string \<Rightarrow> real \<Rightarrow> real \<Rightarrow> string option \<Rightarrow> string list \<Rightarrow> string \<times> props \<Rightarrow> error + entry" where
  "relax metric transfer_penalty acc prev_mode path (neigh, p) =
     (let next_mode = mode p in
      (case getitem p metric of
         Inl e \<Rightarrow> Inl e
       | Inr (Str s) \<Rightarrow> Inl TypeError
       | Inr (Num base) \<Rightarrow>
           (let penalty = penalty_of transfer_penalty prev_mode next_mode;
                new_acc = acc + base + penalty
            in Inr (new_acc, neigh, Some next_mode, path @ [neigh]))))"

fun expand ::
  "string \<Rightarrow> real \<Rightarrow> real \<Rightarrow> string option \<Rightarrow> string list \<Rightarrow> (string \<times> props) list \<Rightarrow>
   entry list \<Rightarrow> error + entry list" where
  "expand metric tp acc prev_mode path [] pq = Inr pq"
| "expand metric tp acc prev_mode path (nb # rest) pq =
     (case relax metric tp acc prev_mode path nb of
        Inl e \<Rightarrow> Inl e
      | Inr item \<Rightarrow> expand metric tp acc prev_mode path rest (heappush pq item))"

definition settled :: "visited \<Rightarrow> string \<times> string option \<Rightarrow> real \<Rightarrow> bool" where
  "settled visited key acc = (case visited key of None \<Rightarrow> False | Some best \<Rightarrow> best \<le> acc)"

partial_function (option) dijkstra_loop ::
  "string \<Rightarrow> string \<Rightarrow> real \<Rightarrow> KnowledgeBase \<Rightarrow> entry list \<Rightarrow> visited \<Rightarrow>
   ((error + route) \<times> KnowledgeBase) option" where
  "dijkstra_loop goal metric transfer_penalty kb pq visited =
     (if pq = [] then Some (Inr (None, PInf), kb)
      else
        (case heappop pq of ((acc, node, prev_mode, path), pq1) \<Rightarrow>
          if node = goal then Some (Inr (Some path, Fin acc), kb)
          else if settled visited (node, prev_mode) acc
          then dijkstra_loop goal metric transfer_penalty kb pq1 visited
          else
            (case expand metric transfer_penalty acc prev_mode path (neighbors kb node) pq1 of
               Inl e \<Rightarrow> Some (Inl e, kb)
             | Inr pq2 \<Rightarrow>
                 dijkstra_loop goal metric transfer_penalty kb pq2
                   (visited((node, prev_mode) \<mapsto> acc)))))"

declare dijkstra_loop.simps [code]

definition dijkstra ::
  "KnowledgeBase \<Rightarrow> string \<Rightarrow> string \<Rightarrow> string \<Rightarrow> real \<Rightarrow> ((error + route) \<times> KnowledgeBase) option" where
  "dijkstra kb start goal metric transfer_penalty =
     dijkstra_loop goal metric transfer_penalty kb [(0, start, None, [start])] Map.empty"

subsection \<open>The example network of the main program\<close>

definition seed :: KnowledgeBase where
  "seed =
     add_edge (add_edge (add_edge (add_edge (add_edge (add_edge (add_edge (add_edge init
       ''A'' ''B'' ''metro'' 4 1.5 True)
       ''B'' ''C'' ''metro'' 3 1.2 True)
       ''C'' ''D'' ''metro'' 5 1.8 True)
       ''B'' ''P1'' ''bus'' 6 0.9 True)
       ''P1'' ''P2'' ''bus'' 8 1.1 True)
       ''P2'' ''D'' ''bus'' 7 1.0 True)
       ''A'' ''Centro'' ''tram'' 10 1.7 True)
       ''Centro'' ''D'' ''tram'' 9 1.6 True"

definition example_kb :: KnowledgeBase where
  "example_kb = add_transfers (make_bidirectional seed) 3.0"

subsection \<open>Auxiliary notions for the statements\<close>

text \<open>The key and the attribute dictionary that \<^verbatim>\<open>add_edge(u, v, m, t, c, False)\<close> stores.\<close>

definition fact_entry :: "fact \<Rightarrow> edge_key \<times> props" where
  "fact_entry f = (case f of (u, v, m, t, c) \<Rightarrow> ((u, v), \<lparr>mode = m, time = t, cost = c\<rparr>))"

text \<open>The reverse key \<^verbatim>\<open>(v, u)\<close> of \<^verbatim>\<open>(u, v)\<close>.\<close>

definition swap_key :: "edge_key \<Rightarrow> edge_key" where
  "swap_key k = (snd k, fst k)"

text \<open>\<^verbatim>\<open>self.edges.get(k)\<close>: the attributes stored under a key, if any.\<close>

definition lookup :: "KnowledgeBase \<Rightarrow> edge_key \<Rightarrow> props option" where
  "lookup kb k = map_of (edges kb) k"

text \<open>A dict holds every key once.\<close>

definition wf_kb :: "KnowledgeBase \<Rightarrow> bool" where
  "wf_kb kb = distinct (map fst (edges kb))"

text \<open>No pair of edges satisfies the condition of the transfer rule: the rule has nothing to add.\<close>

definition transfer_closed :: "KnowledgeBase \<Rightarrow> bool" where
  "transfer_closed kb =
     (\<forall>((a, b), props1) \<in> set (edges kb). \<forall>((c, d), props2) \<in> set (edges kb).
        a = c \<and> b \<noteq> d \<and> mode props1 \<noteq> mode props2 \<longrightarrow> contains kb (b, d))"

subsection \<open>Small networks used as concrete inputs\<close>

definition one_way_kb :: KnowledgeBase where
  "one_way_kb = add_edge init ''A'' ''B'' ''metro'' 4 1.5 False"

definition asym_kb :: KnowledgeBase where
  "asym_kb = add_edge (add_edge init ''A'' ''B'' ''metro'' 4 1.5 False) ''B'' ''A'' ''bus'' 6 0.9 False"

definition fan_kb :: KnowledgeBase where
  "fan_kb =
     add_edge (add_edge (add_edge init
       ''X'' ''Y'' ''metro'' 1 1 False)
       ''X'' ''Z'' ''bus'' 1 1 False)
       ''Y'' ''W'' ''metro'' 1 1 False"

definition blank_kb :: KnowledgeBase where
  "blank_kb =
     add_edge (add_edge init
       ''X'' ''Y'' [] 1 0 True)
       ''Y'' ''Z'' ''bus'' 1 0 True"

definition loop_kb :: KnowledgeBase where
  "loop_kb = add_edge (add_edge init ''A'' ''A'' ''metro'' 1 1 True) ''A'' ''B'' ''bus'' 2 1 False"

definition metro_kb :: KnowledgeBase where
  "metro_kb =
     add_edge (add_edge (add_edge (add_edge init
       ''A'' ''B'' ''metro'' 4 1.5 True)
       ''B'' ''C'' ''metro'' 3 1.2 True)
       ''C'' ''D'' ''metro'' 5 1.8 True)
       ''A'' ''D'' ''metro'' 15 1.0 True"

subsection \<open>Notions for the analysis of the search\<close>

text \<open>The number that \<^verbatim>\<open>props[metric]\<close> selects for one of the two recognised metrics.\<close>

definition attr :: "string \<Rightarrow> props \<Rightarrow> real" where
  "attr metric p = (if metric = ''time'' then time p else cost p)"

text \<open>The two metrics the search is specified for.\<close>

definition valid_metric :: "string \<Rightarrow> bool" where
  "valid_metric metric = (metric = ''time'' \<or> metric = ''cost'')"

text \<open>The entries that the loop over \<^verbatim>\<open>kb.neighbors(node)\<close> pushes for a popped entry, when no lookup raises.\<close>

definition successors :: "string \<Rightarrow> real \<Rightarrow> KnowledgeBase \<Rightarrow> entry \<Rightarrow> entry list" where
  "successors metric tp kb e =
     (case e of (acc, node, prev_mode, path) \<Rightarrow>
        map (\<lambda>(neigh, p).
               (acc + attr metric p + penalty_of tp prev_mode (mode p), neigh, Some (mode p),
                path @ [neigh]))
          (neighbors kb node))"

text \<open>One iteration of the \<^verbatim>\<open>while\<close> loop that neither returns nor raises, as a function on the queue and the visited map.\<close>

definition step :: "string \<Rightarrow> real \<Rightarrow> KnowledgeBase \<Rightarrow> entry list \<times> visited \<Rightarrow> entry list \<times> visited" where
  "step metric tp kb s =
     (case s of (pq, visited) \<Rightarrow>
        (case heappop pq of ((acc, node, prev_mode, path), pq1) \<Rightarrow>
           if settled visited (node, prev_mode) acc then (pq1, visited)
           else (pq1 @ successors metric tp kb (acc, node, prev_mode, path),
                 visited((node, prev_mode) \<mapsto> acc))))"

text \<open>The loop goes on: the queue is not empty and the entry popped next is not at the goal.\<close>

definition running :: "string \<Rightarrow> entry list \<times> visited \<Rightarrow> bool" where
  "running goal s = (fst s \<noteq> [] \<and> fst (snd (fst (heappop (fst s)))) \<noteq> goal)"

text \<open>The result the loop returns from a state in which it stops.\<close>

definition final :: "string \<Rightarrow> entry list \<times> visited \<Rightarrow> error + route \<Rightarrow> bool" where
  "final goal s r =
     (if fst s = [] then r = Inr (None, PInf)
      else (case fst (heappop (fst s)) of (acc, node, prev_mode, path) \<Rightarrow>
              node = goal \<and> r = Inr (Some path, Fin acc)))"

text \<open>The key \<^verbatim>\<open>(node, prev_mode)\<close> of a queue entry.\<close>

definition key_of :: "entry \<Rightarrow> string \<times> string option" where
  "key_of e = (fst (snd e), fst (snd (snd e)))"

text \<open>The keys that pushed entries can have: a destination with the mode of an edge into it.\<close>

definition edge_keys :: "KnowledgeBase \<Rightarrow> (string \<times> string option) set" where
  "edge_keys kb = (\<lambda>(k, p). (snd k, Some (mode p))) ` set (edges kb)"

text \<open>All edges carry the same mode.\<close>

definition uniform_mode :: "KnowledgeBase \<Rightarrow> string \<Rightarrow> bool" where
  "uniform_mode kb m = (\<forall>(k, p) \<in> set (edges kb). mode p = m)"

text \<open>Every edge has a non-negative value under the metric, as the data model requires of time and cost.\<close>

definition nonneg :: "KnowledgeBase \<Rightarrow> string \<Rightarrow> bool" where
  "nonneg kb metric = (\<forall>(k, p) \<in> set (edges kb). 0 \<le> attr metric p)"

text \<open>The invariant behind termination: keys stay in a fixed set, and no queued entry is below a recorded best value.\<close>

definition inv0 :: "(string \<times> string option) set \<Rightarrow> KnowledgeBase \<Rightarrow> entry list \<times> visited \<Rightarrow> bool" where
  "inv0 U kb s =
     (edge_keys kb \<subseteq> U \<and> key_of ` set (fst s) \<subseteq> U \<and> dom (snd s) \<subseteq> U \<and>
      (\<forall>e \<in> set (fst s). \<forall>k v. snd s k = Some v \<longrightarrow> v \<le> fst e))"

text \<open>The measure that every iteration decreases: keys not yet recorded, then queue length.\<close>

definition rank :: "(string \<times> string option) set \<Rightarrow> entry list \<times> visited \<Rightarrow> nat \<times> nat" where
  "rank U s = (card (U - dom (snd s)), length (fst s))"

text \<open>A node sequence that follows edges of the knowledge base.\<close>

fun is_path :: "KnowledgeBase \<Rightarrow> string list \<Rightarrow> bool" where
  "is_path kb [] = False"
| "is_path kb [x] = True"
| "is_path kb (x # y # rest) = (contains kb (x, y) \<and> is_path kb (y # rest))"

text \<open>The sum of the metric attribute along a node sequence.\<close>

fun path_cost :: "KnowledgeBase \<Rightarrow> string \<Rightarrow> string list \<Rightarrow> real" where
  "path_cost kb metric (x # y # rest) =
     (case lookup kb (x, y) of None \<Rightarrow> 0 | Some p \<Rightarrow> attr metric p) + path_cost kb metric (y # rest)"
| "path_cost kb metric path = 0"

text \<open>A path from a start node to a goal node.\<close>

definition route :: "KnowledgeBase \<Rightarrow> string \<Rightarrow> string \<Rightarrow> string list \<Rightarrow> bool" where
  "route kb start goal path = (is_path kb path \<and> hd path = start \<and> last path = goal)"

text \<open>The shortest-path distance between two nodes under a metric, as classical Dijkstra computes it: the cost of some route, and a lower bound on the cost of every route.\<close>

definition shortest_distance :: "KnowledgeBase \<Rightarrow> string \<Rightarrow> string \<Rightarrow> string \<Rightarrow> real \<Rightarrow> bool" where
  "shortest_distance kb metric start goal d =
     ((\<exists>path. route kb start goal path \<and> path_cost kb metric path = d) \<and>
      (\<forall>path. route kb start goal path \<longrightarrow> d \<le> path_cost kb metric path))"

text \<open>Every queued entry carries a route from the start to its node.\<close>

definition reach_inv :: "KnowledgeBase \<Rightarrow> string \<Rightarrow> entry list \<times> visited \<Rightarrow> bool" where
  "reach_inv kb start s =
     (\<forall>(acc, node, pm, path) \<in> set (fst s). route kb start node path)"

text \<open>A node is covered at a value: a queued entry or a recorded best value reaches it at most that high.\<close>

definition cov :: "entry list \<times> visited \<Rightarrow> string \<Rightarrow> real \<Rightarrow> bool" where
  "cov s x d =
     ((\<exists>e \<in> set (fst s). fst (snd e) = x \<and> fst e \<le> d) \<or>
      (\<exists>pm v. snd s (x, pm) = Some v \<and> v \<le> d))"

text \<open>The invariant behind optimality (penalty zero): queued entries carry their route and its cost, the start is covered at 0, every edge out of a recorded key has its destination covered, and the goal is never recorded.\<close>

definition opt_inv ::
  "KnowledgeBase \<Rightarrow> string \<Rightarrow> string \<Rightarrow> string \<Rightarrow> entry list \<times> visited \<Rightarrow> bool" where
  "opt_inv kb metric start goal s =
     ((\<forall>(acc, node, pm, path) \<in> set (fst s).
         route kb start node path \<and> path_cost kb metric path = acc) \<and>
      cov s start 0 \<and>
      (\<forall>x pm v y p. snd s (x, pm) = Some v \<and> ((x, y), p) \<in> set (edges kb) \<longrightarrow>
         cov s y (v + attr metric p)) \<and>
      (\<forall>pm. snd s (goal, pm) = None))"

text \<open>A two-way connection with a negative time: a cycle of negative length.\<close>

definition neg_kb :: KnowledgeBase where
  "neg_kb = add_edge init ''A'' ''B'' ''metro'' (- 1) 0 True"

text \<open>The states the search on \<open>neg_kb\<close> runs through: one queued entry, below every recorded value.\<close>

definition spinning :: "entry list \<times> visited \<Rightarrow> bool" where
  "spinning s =
     (\<exists>acc node pm path.
        fst s = [(acc, node, pm, path)] \<and> (node = ''A'' \<or> node = ''B'') \<and>
        (pm = None \<or> pm = Some ''metro'') \<and>
        (\<forall>k v. snd s k = Some v \<longrightarrow> acc < v))"

text \<open>Two opposite one-way connections of different modes and time 0.\<close>

definition alt_kb :: KnowledgeBase where
  "alt_kb = add_edge (add_edge init ''A'' ''B'' ''metro'' 0 0 False) ''B'' ''A'' ''bus'' 0 0 False"

text \<open>The states the search on \<open>alt_kb\<close> with a negative penalty runs through.\<close>

definition alternating :: "entry list \<times> visited \<Rightarrow> bool" where
  "alternating s =
     (\<exists>acc node pm path.
        fst s = [(acc, node, pm, path)] \<and>
        (node = ''A'' \<and> pm = None \<and> snd s = Map.empty \<or>
         (node = ''B'' \<and> pm = Some ''metro'' \<or> node = ''A'' \<and> pm = Some ''bus'') \<and>
         (\<forall>k v. snd s k = Some v \<and> k \<noteq> (''A'', None) \<longrightarrow> acc < v)))"

section \<open>The knowledge base and its rules\<close>

lemma edges_add_fact_False:
  "edges (add_fact False f kb) = AList.update (fst (fact_entry f)) (snd (fact_entry f)) (edges kb)"
  by (cases f) (simp add: add_fact_def add_edge_def fact_entry_def)

lemma edges_add_fact_True:
  "edges (add_fact True f kb) =
     AList.update (swap_key (fst (fact_entry f))) (snd (fact_entry f))
       (AList.update (fst (fact_entry f)) (snd (fact_entry f)) (edges kb))"
  by (cases f) (simp add: add_fact_def add_edge_def fact_entry_def swap_key_def Let_def)

lemma contains_add_fact_False:
  "contains (add_fact False f kb) k \<longleftrightarrow> k = fst (fact_entry f) \<or> contains kb k"
  by (auto simp: contains_def edges_add_fact_False dom_update)

lemma contains_add_fact_True:
  "contains (add_fact True f kb) k \<longleftrightarrow>
     k = fst (fact_entry f) \<or> k = swap_key (fst (fact_entry f)) \<or> contains kb k"
  by (auto simp: contains_def edges_add_fact_True dom_update)

lemma contains_fold_False:
  "contains (fold (add_fact False) fs kb) k \<longleftrightarrow>
     k \<in> fst ` fact_entry ` set fs \<or> contains kb k"
  by (induction fs arbitrary: kb) (auto simp: contains_add_fact_False)

lemma contains_fold_True:
  "contains (fold (add_fact True) fs kb) k \<longleftrightarrow>
     k \<in> fst ` fact_entry ` set fs \<or> k \<in> swap_key ` fst ` fact_entry ` set fs \<or> contains kb k"
  by (induction fs arbitrary: kb) (auto simp: contains_add_fact_True)

lemma symmetry_fact_keys:
  "fst ` fact_entry ` set (symmetry_facts kb) =
     {k. contains kb (swap_key k) \<and> \<not> contains kb k}"
  by (force simp: symmetry_facts_def fact_entry_def swap_key_def contains_def image_iff)

lemma contains_make_bidirectional:
  "contains (make_bidirectional kb) k \<longleftrightarrow> contains kb k \<or> contains kb (swap_key k)"
  by (auto simp: make_bidirectional_def contains_fold_False symmetry_fact_keys)

lemma symmetry_facts_empty:
  assumes "\<And>k. contains kb k \<Longrightarrow> contains kb (swap_key k)"
  shows "symmetry_facts kb = []"
proof -
  have "contains kb (b, a)" if "((a, b), p) \<in> set (edges kb)" for a b p
  proof -
    from that have "contains kb (a, b)" by (force simp: contains_def)
    from assms[OF this] show ?thesis by (simp add: swap_key_def)
  qed
  then show ?thesis by (auto simp: symmetry_facts_def)
qed

text \<open>
  C4. Applying the symmetry rule twice gives the same edge mapping as applying it once: after
  the first call every key has its reverse, so the second call finds nothing to add.
\<close>

theorem make_bidirectional_idempotent:
  "make_bidirectional (make_bidirectional kb) = make_bidirectional kb"
proof -
  have "symmetry_facts (make_bidirectional kb) = []"
    by (rule symmetry_facts_empty) (auto simp: contains_make_bidirectional swap_key_def)
  then show ?thesis
    by (subst make_bidirectional_def) simp
qed

lemma contains_lookup: "contains kb k \<longleftrightarrow> lookup kb k \<noteq> None"
  by (simp add: contains_def lookup_def map_of_eq_None_iff)

lemma lookup_add_fact_False:
  "lookup (add_fact False f kb) = (lookup kb)(fst (fact_entry f) \<mapsto> snd (fact_entry f))"
  by (rule ext) (simp add: lookup_def edges_add_fact_False update_conv')

lemma lookup_add_fact_True:
  "lookup (add_fact True f kb) =
     (lookup kb)(fst (fact_entry f) \<mapsto> snd (fact_entry f),
                 swap_key (fst (fact_entry f)) \<mapsto> snd (fact_entry f))"
  by (rule ext) (simp add: lookup_def edges_add_fact_True update_conv')

lemma lookup_fold_False:
  "lookup (fold (add_fact False) fs kb) = lookup kb ++ map_of (rev (map fact_entry fs))"
proof (induction fs arbitrary: kb)
  case Nil
  show ?case by simp
next
  case (Cons f fs)
  have "lookup (fold (add_fact False) (f # fs) kb) =
        (lookup kb)(fst (fact_entry f) \<mapsto> snd (fact_entry f)) ++ map_of (rev (map fact_entry fs))"
    by (simp only: fold_simps Cons.IH lookup_add_fact_False)
  also have "\<dots> = lookup kb ++ map_of (rev (map fact_entry (f # fs)))"
    by (rule ext) (simp add: map_add_def split: option.splits)
  finally show ?case .
qed

lemma symmetry_entries:
  "map fact_entry (symmetry_facts kb) =
     map (\<lambda>(k, p). (swap_key k, p)) (filter (\<lambda>(k, p). \<not> contains kb (swap_key k)) (edges kb))"
proof -
  have "map fact_entry (concat (map (\<lambda>((u, v), p). if \<not> contains kb (v, u) then [(v, u, mode p, time p, cost p)] else []) es)) =
     map (\<lambda>(k, p). (swap_key k, p)) (filter (\<lambda>(k, p). \<not> contains kb (swap_key k)) es)" for es
    by (induction es) (auto simp: fact_entry_def swap_key_def)
  then show ?thesis by (simp add: symmetry_facts_def)
qed

lemma inj_swap_key: "inj swap_key"
  by (auto simp: inj_on_def swap_key_def prod_eq_iff)

lemma swap_swap [simp]: "swap_key (swap_key k) = k"
  by (simp add: swap_key_def)

lemma symmetry_entries_distinct:
  assumes "wf_kb kb"
  shows "distinct (map fst (map fact_entry (symmetry_facts kb)))"
proof -
  let ?xs = "map fst (filter (\<lambda>(k, p). \<not> contains kb (swap_key k)) (edges kb))"
  have "map fst (map fact_entry (symmetry_facts kb)) = map swap_key ?xs"
    by (simp add: symmetry_entries case_prod_unfold comp_def)
  moreover have "distinct ?xs"
    using assms by (simp add: wf_kb_def distinct_map_filter)
  moreover have "inj_on swap_key (set ?xs)"
    by (rule inj_on_subset[OF inj_swap_key]) simp
  ultimately show ?thesis
    by (simp only: distinct_map)
qed

lemma lookup_make_bidirectional_old:
  assumes "contains kb k"
  shows "lookup (make_bidirectional kb) k = lookup kb k"
proof -
  have "k \<notin> fst ` fact_entry ` set (symmetry_facts kb)"
    using assms by (simp add: symmetry_fact_keys)
  then have "map_of (rev (map fact_entry (symmetry_facts kb))) k = None"
    by (simp add: map_of_eq_None_iff image_image)
  then show ?thesis
    by (simp add: make_bidirectional_def lookup_fold_False map_add_def)
qed

lemma lookup_make_bidirectional_new:
  assumes wf: "wf_kb kb" and new: "\<not> contains kb k" and rev: "contains kb (swap_key k)"
  shows "lookup (make_bidirectional kb) k = lookup kb (swap_key k)"
proof -
  from rev obtain p where p: "lookup kb (swap_key k) = Some p"
    by (auto simp: contains_lookup)
  then have "(swap_key k, p) \<in> set (edges kb)"
    by (simp add: lookup_def map_of_SomeD)
  with new have "(swap_key (swap_key k), p) \<in> set (map fact_entry (symmetry_facts kb))"
    unfolding symmetry_entries by (intro image_eqI[where x = "(swap_key k, p)"] | simp)+
  then have "(k, p) \<in> set (map fact_entry (symmetry_facts kb))"
    by simp
  then have "(k, p) \<in> set (rev (map fact_entry (symmetry_facts kb)))"
    by simp
  moreover have "distinct (map fst (rev (map fact_entry (symmetry_facts kb))))"
    using symmetry_entries_distinct[OF wf] by (simp add: rev_map[symmetric])
  ultimately have "map_of (rev (map fact_entry (symmetry_facts kb))) k = Some p"
    by (rule map_of_is_SomeI[rotated])
  then show ?thesis
    by (simp add: make_bidirectional_def lookup_fold_False p)
qed

lemma wf_add_fact: "wf_kb kb \<Longrightarrow> wf_kb (add_fact b f kb)"
  by (cases b) (simp_all add: wf_kb_def edges_add_fact_True edges_add_fact_False distinct_update)

lemma wf_fold: "wf_kb kb \<Longrightarrow> wf_kb (fold (add_fact b) fs kb)"
  by (induction fs arbitrary: kb) (simp_all add: wf_add_fact)

lemma transfer_fact_keys:
  "f \<in> set (transfer_facts kb p) \<Longrightarrow>
     fst (fst (fact_entry f)) \<noteq> snd (fst (fact_entry f)) \<and> \<not> contains kb (fst (fact_entry f))
     \<and> snd (fact_entry f) = \<lparr>mode = ''walk'', time = p, cost = 0\<rparr>"
  by (auto simp: transfer_facts_def fact_entry_def split: if_splits)

lemma transfer_facts_empty_iff: "transfer_facts kb p = [] \<longleftrightarrow> transfer_closed kb"
  by (fastforce simp: transfer_facts_def transfer_closed_def split: if_splits)

lemma add_transfers_fixed_iff: "add_transfers kb p = kb \<longleftrightarrow> transfer_closed kb"
proof
  assume "transfer_closed kb"
  then show "add_transfers kb p = kb"
    by (simp add: add_transfers_def transfer_facts_empty_iff[THEN iffD2])
next
  assume fixed: "add_transfers kb p = kb"
  show "transfer_closed kb"
  proof (rule ccontr)
    assume "\<not> transfer_closed kb"
    then have "transfer_facts kb p \<noteq> []"
      by (simp add: transfer_facts_empty_iff)
    define f where "f = hd (transfer_facts kb p)"
    with \<open>transfer_facts kb p \<noteq> []\<close> have f: "f \<in> set (transfer_facts kb p)"
      by simp
    then have "contains (add_transfers kb p) (fst (fact_entry f))"
      by (auto simp: add_transfers_def contains_fold_True)
    moreover have "\<not> contains kb (fst (fact_entry f))"
      using transfer_fact_keys[OF f] by simp
    ultimately show False using fixed by simp
  qed
qed

lemma lookup_fold_True_uniform:
  assumes "\<And>f. f \<in> set fs \<Longrightarrow> snd (fact_entry f) = w"
  shows "lookup (fold (add_fact True) fs kb) k =
     (if k \<in> fst ` fact_entry ` set fs \<or> k \<in> swap_key ` fst ` fact_entry ` set fs
      then Some w else lookup kb k)"
  using assms
proof (induction fs arbitrary: kb)
  case Nil
  show ?case by simp
next
  case (Cons f fs)
  have w: "snd (fact_entry f) = w" by (rule Cons.prems) simp
  have "lookup (fold (add_fact True) (f # fs) kb) k =
        (if k \<in> fst ` fact_entry ` set fs \<or> k \<in> swap_key ` fst ` fact_entry ` set fs
         then Some w else lookup (add_fact True f kb) k)"
    using Cons.IH[of "add_fact True f kb"] Cons.prems by simp
  then show ?case
    by (auto simp: lookup_add_fact_True w)
qed

text \<open>
  C3, as stated, fails where both directions were inserted one by one with different
  attributes: the rule only adds a reverse edge that is absent, so both keys keep what they had.
\<close>

theorem symmetry_attributes_counterexample:
  "contains (make_bidirectional asym_kb) (''A'', ''B'') \<and>
   lookup (make_bidirectional asym_kb) (''B'', ''A'') \<noteq> lookup (make_bidirectional asym_kb) (''A'', ''B'')"
  by code_simp

text \<open>
  C3 (amended). After one call of the symmetry rule on a knowledge base, every key
  \<open>(u, v)\<close> that is present has its reverse \<open>(v, u)\<close> present too. The reverse carries the
  same mode, time and cost as \<open>(u, v)\<close>, except where both keys were present before the
  call: those two keep the attributes they had.
\<close>

theorem make_bidirectional_symmetric:
  assumes "wf_kb kb" and "contains (make_bidirectional kb) (u, v)"
  shows "contains (make_bidirectional kb) (v, u) \<and>
    (if contains kb (u, v) \<and> contains kb (v, u)
     then lookup (make_bidirectional kb) (u, v) = lookup kb (u, v) \<and>
          lookup (make_bidirectional kb) (v, u) = lookup kb (v, u)
     else lookup (make_bidirectional kb) (v, u) = lookup (make_bidirectional kb) (u, v))"
proof -
  have sw: "swap_key (u, v) = (v, u)" "swap_key (v, u) = (u, v)"
    by (simp_all add: swap_key_def)
  from assms(2) have present: "contains kb (u, v) \<or> contains kb (v, u)"
    by (simp add: contains_make_bidirectional sw)
  then have rev: "contains (make_bidirectional kb) (v, u)"
    by (auto simp: contains_make_bidirectional sw)
  consider (both) "contains kb (u, v)" "contains kb (v, u)"
    | (fwd) "contains kb (u, v)" "\<not> contains kb (v, u)"
    | (bwd) "\<not> contains kb (u, v)" "contains kb (v, u)"
    using present by blast
  then show ?thesis
  proof cases
    case both
    then show ?thesis using rev by (simp add: lookup_make_bidirectional_old)
  next
    case fwd
    then show ?thesis
      using rev lookup_make_bidirectional_new[OF assms(1), of "(v, u)"]
      by (simp add: lookup_make_bidirectional_old sw)
  next
    case bwd
    then show ?thesis
      using rev lookup_make_bidirectional_new[OF assms(1), of "(u, v)"]
      by (simp add: lookup_make_bidirectional_old sw)
  qed
qed

text \<open>The statement of C3 at the one-way network \<open>A \<rightarrow> B\<close>.\<close>

theorem make_bidirectional_symmetric_witness:
  "wf_kb one_way_kb \<and> contains (make_bidirectional one_way_kb) (''A'', ''B'') \<and>
   contains (make_bidirectional one_way_kb) (''B'', ''A'') \<and>
   lookup (make_bidirectional one_way_kb) (''B'', ''A'') = lookup (make_bidirectional one_way_kb) (''A'', ''B'')"
proof -
  have wf: "wf_kb one_way_kb" by code_simp
  have c: "contains (make_bidirectional one_way_kb) (''A'', ''B'')" by code_simp
  have n: "\<not> contains one_way_kb (''B'', ''A'')" by code_simp
  from make_bidirectional_symmetric[OF wf c] n wf c show ?thesis by simp
qed

text \<open>C4 at the example network.\<close>

theorem make_bidirectional_idempotent_witness:
  "make_bidirectional (make_bidirectional seed) = make_bidirectional seed"
  by (rule make_bidirectional_idempotent)

text \<open>
  C5, as stated, fails: on \<open>X \<rightarrow> Y\<close> (metro), \<open>X \<rightarrow> Z\<close> (bus), \<open>Y \<rightarrow> W\<close> (metro) the first
  call adds the walk edges between \<open>Y\<close> and \<open>Z\<close>; the second call then sees the metro edge
  \<open>Y \<rightarrow> W\<close> beside the walk edge \<open>Y \<rightarrow> Z\<close> and adds walk edges between \<open>W\<close> and \<open>Z\<close>.
  The same happens on the example network of the main program.
\<close>

theorem add_transfers_twice_counterexample:
  "add_transfers (add_transfers fan_kb 3) 3 \<noteq> add_transfers fan_kb 3 \<and>
   add_transfers (add_transfers (make_bidirectional seed) 3) 3 \<noteq>
     add_transfers (make_bidirectional seed) 3"
  by code_simp

lemma contains_add_transfers_new:
  assumes "contains (add_transfers kb p) k" and "\<not> contains kb k"
  shows "fst k \<noteq> snd k \<and> lookup (add_transfers kb p) k = Some \<lparr>mode = ''walk'', time = p, cost = 0\<rparr>"
proof -
  let ?fs = "transfer_facts kb p"
  from assms have k: "k \<in> fst ` fact_entry ` set ?fs \<or> k \<in> swap_key ` fst ` fact_entry ` set ?fs"
    by (simp add: add_transfers_def contains_fold_True)
  then obtain f where f: "f \<in> set ?fs"
    and kf: "k = fst (fact_entry f) \<or> k = swap_key (fst (fact_entry f))"
    by blast
  from transfer_fact_keys[OF f] kf have "fst k \<noteq> snd k"
    by (auto simp: swap_key_def)
  moreover have "lookup (add_transfers kb p) k = Some \<lparr>mode = ''walk'', time = p, cost = 0\<rparr>"
    unfolding add_transfers_def
    using k by (subst lookup_fold_True_uniform[where w = "\<lparr>mode = ''walk'', time = p, cost = 0\<rparr>"])
      (simp_all add: transfer_fact_keys)
  ultimately show ?thesis by simp
qed

text \<open>
  C5 (amended). A second call of the transfer rule with the same penalty is a no-op exactly
  when the mapping left by the first call is closed under the rule. Otherwise it adds edges,
  and every key it adds joins two different nodes by a walk edge with the penalty as time and
  cost zero.
\<close>

theorem add_transfers_twice:
  "(add_transfers (add_transfers kb p) p = add_transfers kb p \<longleftrightarrow>
      transfer_closed (add_transfers kb p)) \<and>
   (contains (add_transfers (add_transfers kb p) p) (u, v) \<and>
    \<not> contains (add_transfers kb p) (u, v) \<longrightarrow>
      u \<noteq> v \<and>
      lookup (add_transfers (add_transfers kb p) p) (u, v) =
        Some \<lparr>mode = ''walk'', time = p, cost = 0\<rparr>)"
  using contains_add_transfers_new[of "add_transfers kb p" p "(u, v)"]
  by (simp add: add_transfers_fixed_iff)

text \<open>C5 (amended) at a network where the second call adds an edge and at one where it adds none.\<close>

theorem add_transfers_twice_witness:
  "\<not> transfer_closed (add_transfers fan_kb 3) \<and>
   contains (add_transfers (add_transfers fan_kb 3) 3) (''W'', ''Z'') \<and>
   \<not> contains (add_transfers fan_kb 3) (''W'', ''Z'') \<and>
   lookup (add_transfers (add_transfers fan_kb 3) 3) (''W'', ''Z'') =
     Some \<lparr>mode = ''walk'', time = 3, cost = 0\<rparr> \<and>
   transfer_closed (add_transfers one_way_kb 3) \<and>
   add_transfers (add_transfers one_way_kb 3) 3 = add_transfers one_way_kb 3"
proof -
  have a: "contains (add_transfers (add_transfers fan_kb 3) 3) (''W'', ''Z'')" by code_simp
  have b: "\<not> contains (add_transfers fan_kb 3) (''W'', ''Z'')" by code_simp
  have c: "transfer_closed (add_transfers one_way_kb 3)" by code_simp
  have d: "\<not> transfer_closed (add_transfers fan_kb 3)" by code_simp
  from add_transfers_twice[of fan_kb 3 "''W''" "''Z''"] add_transfers_twice[of one_way_kb 3] a b c d
  show ?thesis by simp
qed

lemma symmetry_fact_no_loop:
  "(a, b, m, t, c) \<in> set (symmetry_facts kb) \<Longrightarrow> a \<noteq> b"
  by (force simp: symmetry_facts_def contains_def split: if_splits)

lemma transfer_fact_no_loop:
  "(a, b, m, t, c) \<in> set (transfer_facts kb p) \<Longrightarrow> a \<noteq> b"
  using transfer_fact_keys[of "(a, b, m, t, c)" kb p] by (simp add: fact_entry_def)

text \<open>
  C8. Neither rule inserts a self-loop, whatever the starting edge set: every edge that
  \<^verbatim>\<open>make_bidirectional()\<close> or \<^verbatim>\<open>add_transfers(p)\<close> passes to \<^verbatim>\<open>add_edge\<close> joins two different
  nodes, and so does every key that is present after either call and was not present before.
  A self-loop that is present is left with its attributes by the symmetry rule, and keys stay
  unique.
\<close>

theorem rules_insert_no_self_loop:
  "((a, b, m, t, c) \<in> set (symmetry_facts kb) \<union> set (transfer_facts kb p) \<longrightarrow> a \<noteq> b) \<and>
   (contains (make_bidirectional kb) (u, v) \<and> \<not> contains kb (u, v) \<longrightarrow> u \<noteq> v) \<and>
   (contains (add_transfers kb p) (u, v) \<and> \<not> contains kb (u, v) \<longrightarrow> u \<noteq> v) \<and>
   (contains kb (u, u) \<longrightarrow> lookup (make_bidirectional kb) (u, u) = lookup kb (u, u)) \<and>
   (wf_kb kb \<longrightarrow> wf_kb (make_bidirectional kb) \<and> wf_kb (add_transfers kb p))"
proof -
  have "u \<noteq> v" if "contains (make_bidirectional kb) (u, v)" "\<not> contains kb (u, v)"
    using that by (auto simp: contains_make_bidirectional swap_key_def)
  moreover have "u \<noteq> v" if "contains (add_transfers kb p) (u, v)" "\<not> contains kb (u, v)"
    using contains_add_transfers_new[OF that] by simp
  moreover have "wf_kb (make_bidirectional kb) \<and> wf_kb (add_transfers kb p)" if "wf_kb kb"
    using that by (simp add: make_bidirectional_def add_transfers_def wf_fold)
  moreover have "a \<noteq> b" if "(a, b, m, t, c) \<in> set (symmetry_facts kb) \<union> set (transfer_facts kb p)"
    using that symmetry_fact_no_loop transfer_fact_no_loop by blast
  ultimately show ?thesis
    by (simp add: lookup_make_bidirectional_old)
qed

text \<open>C8 at a network with the self-loop \<open>A \<rightarrow> A\<close>, and at the fan network.\<close>

theorem rules_insert_no_self_loop_witness:
  "contains (make_bidirectional loop_kb) (''B'', ''A'') \<and> \<not> contains loop_kb (''B'', ''A'') \<and>
   contains (add_transfers loop_kb 3) (''A'', ''B'') \<and> contains loop_kb (''A'', ''A'') \<and>
   lookup (make_bidirectional loop_kb) (''A'', ''A'') = lookup loop_kb (''A'', ''A'') \<and>
   wf_kb loop_kb \<and> wf_kb (make_bidirectional loop_kb) \<and> wf_kb (add_transfers loop_kb 3) \<and>
   contains (add_transfers fan_kb 3) (''Y'', ''Z'') \<and> \<not> contains fan_kb (''Y'', ''Z'') \<and>
   (''B'', ''A'', ''bus'', 2, 1) \<in> set (symmetry_facts loop_kb) \<and> ''B'' \<noteq> ''A''"
proof -
  have h: "(''B'', ''A'', ''bus'', 2, 1) \<in> set (symmetry_facts loop_kb)" by code_simp
  have a: "contains (make_bidirectional loop_kb) (''B'', ''A'')" by code_simp
  have b: "\<not> contains loop_kb (''B'', ''A'')" by code_simp
  have c: "contains (add_transfers loop_kb 3) (''A'', ''B'')" by code_simp
  have d: "contains loop_kb (''A'', ''A'')" by code_simp
  have e: "wf_kb loop_kb" by code_simp
  have f: "contains (add_transfers fan_kb 3) (''Y'', ''Z'')" by code_simp
  have g: "\<not> contains fan_kb (''Y'', ''Z'')" by code_simp
  from rules_insert_no_self_loop[where kb = loop_kb and u = "''B''" and v = "''A''" and p = 3
      and a = "''B''" and b = "''A''" and m = "''bus''" and t = 2 and c = 1]
    rules_insert_no_self_loop[where kb = loop_kb and u = "''A''" and v = "''A''" and p = 3]
    rules_insert_no_self_loop[where kb = fan_kb and u = "''Y''" and v = "''Z''" and p = 3]
    a b c d e f g h
  show ?thesis by simp
qed


section \<open>The search\<close>

lemma heappop_single: "heappop [e] = (e, [])"
  by (simp add: heappop_def)

text \<open>
  C10. A search from a node to itself returns the one-node path with total 0, for every
  knowledge base, node, metric string and penalty: the first entry popped is the start, before
  any edge is read (so even a metric that no edge has raises nothing).
\<close>

theorem dijkstra_same_node:
  "dijkstra kb s s metric p = Some (Inr (Some [s], Fin 0), kb)"
  by (simp add: dijkstra_def dijkstra_loop.simps heappop_single)

lemma dijkstra_loop_kb:
  assumes "dijkstra_loop goal metric tp kb pq visited = Some y"
  shows "snd y = kb"
proof (rule dijkstra_loop.raw_induct[OF _ assms, where P = "\<lambda>_ _ _ kb _ _ y. snd y = kb"])
  fix f :: "string \<Rightarrow> string \<Rightarrow> real \<Rightarrow> KnowledgeBase \<Rightarrow> entry list \<Rightarrow> visited \<Rightarrow>
    ((error + route) \<times> KnowledgeBase) option"
  fix goal metric tp kb pq visited y
  assume IH: "\<And>goal metric tp kb pq visited y. f goal metric tp kb pq visited = Some y \<Longrightarrow> snd y = kb"
  assume "(if pq = [] then Some (Inr (None, PInf), kb)
      else case heappop pq of
           ((acc, node, prev_mode, path), pq1) \<Rightarrow>
             if node = goal then Some (Inr (Some path, Fin acc), kb)
             else if settled visited (node, prev_mode) acc
                  then f goal metric tp kb pq1 visited
                  else case expand metric tp acc prev_mode path (neighbors kb node) pq1 of
                       Inl e \<Rightarrow> Some (Inl e, kb)
                       | Inr pq2 \<Rightarrow>
                           f goal metric tp kb pq2 (visited((node, prev_mode) \<mapsto> acc))) =
     Some y"
  then show "snd y = kb"
    by (auto split: if_splits prod.splits sum.splits dest: IH)
qed

text \<open>
  C9. The search leaves the knowledge base as it was: whenever it returns or raises, the edge
  mapping it hands back is the one it was given.
\<close>

theorem dijkstra_read_only:
  "dijkstra kb start goal metric tp = Some (r, kb') \<Longrightarrow> kb' = kb"
  using dijkstra_loop_kb[of goal metric tp kb _ _ "(r, kb')"] by (simp add: dijkstra_def)

text \<open>
  C1. On the example network of the main program (the eight seeded connections, then
  \<^verbatim>\<open>make_bidirectional()\<close> and \<^verbatim>\<open>add_transfers()\<close> with its default 3.0), the search from \<open>A\<close>
  to \<open>D\<close> by time with transfer penalty 2.0 returns the path \<open>A, B, C, D\<close> with total 12.
\<close>

theorem seed_route:
  "dijkstra example_kb ''A'' ''D'' ''time'' 2.0 =
     Some (Inr (Some [''A'', ''B'', ''C'', ''D''], Fin 12.0), example_kb)"
  by code_simp

text \<open>
  C7 at an input where the code departs from it. The previous mode is tested for truth, so
  the empty string counts as no previous mode. On the two-way connections \<open>X - Y\<close>, whose
  mode is the empty string, and \<open>Y - Z\<close> of mode \<open>bus\<close>, each of time 1, with penalty 2:
  from \<open>X\<close> to \<open>Z\<close> the change of mode at \<open>Y\<close> is not penalised and the total is 2, not 4;
  the same route taken from \<open>Z\<close> to \<open>X\<close> is penalised and totals 4.
\<close>

theorem empty_mode_no_penalty:
  "dijkstra blank_kb ''X'' ''Z'' ''time'' 2 =
     Some (Inr (Some [''X'', ''Y'', ''Z''], Fin 2), blank_kb) \<and>
   dijkstra blank_kb ''Z'' ''X'' ''time'' 2 =
     Some (Inr (Some [''Z'', ''Y'', ''X''], Fin 4), blank_kb)"
  by code_simp

text \<open>What one neighbour expansion computes, for a metric that selects a number.\<close>

lemma relax_Num:
  "getitem p metric = Inr (Num base) \<Longrightarrow>
   relax metric tp acc prev_mode path (neigh, p) =
     Inr (acc + base + (if prev_mode \<noteq> None \<and> prev_mode \<noteq> Some [] \<and> prev_mode \<noteq> Some (mode p) then tp else 0),
          neigh, Some (mode p), path @ [neigh])"
  by (cases prev_mode) (auto simp: penalty_of_def)

text \<open>C9 at a search that returns a route.\<close>

theorem dijkstra_read_only_witness:
  "dijkstra fan_kb ''X'' ''W'' ''cost'' 2 = Some (Inr (Some [''X'', ''Y'', ''W''], Fin 2), fan_kb) \<and>
   snd (the (dijkstra fan_kb ''X'' ''W'' ''cost'' 2)) = fan_kb"
proof -
  have run: "dijkstra fan_kb ''X'' ''W'' ''cost'' 2 =
      Some (Inr (Some [''X'', ''Y'', ''W''], Fin 2), fan_kb)"
    by code_simp
  from dijkstra_read_only[OF run] run show ?thesis by simp
qed

subsection \<open>Termination and optimality\<close>

lemma getitem_valid: "valid_metric metric \<Longrightarrow> getitem p metric = Inr (Num (attr metric p))"
  by (auto simp: valid_metric_def getitem_def attr_def)

lemma expand_valid:
  assumes "valid_metric metric"
  shows "expand metric tp acc pm path nbs pq =
     Inr (pq @ map (\<lambda>(neigh, p).
               (acc + attr metric p + penalty_of tp pm (mode p), neigh, Some (mode p),
                path @ [neigh])) nbs)"
  by (induction nbs arbitrary: pq)
     (auto simp: getitem_valid[OF assms] heappush_def Let_def)

lemma heappop_min:
  assumes "pq \<noteq> []"
  shows "fst (heappop pq) \<in> set pq" and "\<And>e. e \<in> set pq \<Longrightarrow> fst (heappop pq) \<le> e"
    and "snd (heappop pq) = remove1 (fst (heappop pq)) pq"
proof -
  from assms obtain x xs where pq: "pq = x # xs" by (cases pq) auto
  have m: "fst (heappop pq) = Min (set pq)"
    using Min.set_eq_fold[of x xs] by (simp add: heappop_def pq Let_def)
  show "fst (heappop pq) \<in> set pq"
    unfolding m using assms by (intro Min_in) auto
  show "fst (heappop pq) \<le> e" if "e \<in> set pq" for e
    unfolding m using that by (intro Min_le) auto
  show "snd (heappop pq) = remove1 (fst (heappop pq)) pq"
    by (simp add: heappop_def Let_def)
qed

lemma loop_unfold:
  assumes "valid_metric metric" and "running goal (pq, visited)"
  shows "dijkstra_loop goal metric tp kb pq visited =
     dijkstra_loop goal metric tp kb (fst (step metric tp kb (pq, visited)))
       (snd (step metric tp kb (pq, visited)))"
  using assms(2)
  by (subst dijkstra_loop.simps)
     (auto simp: running_def step_def successors_def expand_valid[OF assms(1)] split: prod.splits)

lemma loop_final:
  assumes "\<not> running goal (pq, visited)"
  shows "\<exists>r. dijkstra_loop goal metric tp kb pq visited = Some (r, kb) \<and> final goal (pq, visited) r"
  using assms
  by (subst dijkstra_loop.simps)
     (auto simp: running_def final_def split: prod.splits)

lemma fst_le: "(e :: entry) \<le> e' \<Longrightarrow> fst e \<le> fst e'"
  by (cases e; cases e') auto

lemma neighborsD:
  "(n, p) \<in> set (neighbors kb node) \<Longrightarrow> ((node, n), p) \<in> set (edges kb)"
  by (auto simp: neighbors_def)

lemma neighborsI:
  "((node, n), p) \<in> set (edges kb) \<Longrightarrow> (n, p) \<in> set (neighbors kb node)"
  by (force simp: neighbors_def)

lemma penalty_nonneg: "0 \<le> tp \<Longrightarrow> 0 \<le> penalty_of tp pm m"
  by (simp add: penalty_of_def)

lemma successorsD:
  assumes "e' \<in> set (successors metric tp kb (acc, node, pm, path))"
  shows "\<exists>n p. ((node, n), p) \<in> set (edges kb) \<and>
     e' = (acc + attr metric p + penalty_of tp pm (mode p), n, Some (mode p), path @ [n])"
  using assms by (auto simp: successors_def dest: neighborsD)

text \<open>Every pushed entry has a previous mode: only the initial entry has none.\<close>

lemma pushed_mode_defined:
  "e \<in> set (successors metric tp kb x) \<Longrightarrow> fst (snd (snd e)) \<noteq> None"
  by (cases x) (auto simp: successors_def)

text \<open>The two shapes of a step, with the popped entry named.\<close>

lemma step_cases:
  assumes "fst s \<noteq> []"
  obtains (skip) acc node pm path where
      "fst (heappop (fst s)) = (acc, node, pm, path)" "settled (snd s) (node, pm) acc"
      "step metric tp kb s = (remove1 (acc, node, pm, path) (fst s), snd s)"
  | (grow) acc node pm path where
      "fst (heappop (fst s)) = (acc, node, pm, path)" "\<not> settled (snd s) (node, pm) acc"
      "step metric tp kb s =
         (remove1 (acc, node, pm, path) (fst s) @ successors metric tp kb (acc, node, pm, path),
          (snd s)((node, pm) \<mapsto> acc))"
proof -
  obtain pq visited where s: "s = (pq, visited)" by (cases s)
  obtain acc node pm path where e: "fst (heappop pq) = (acc, node, pm, path)"
    by (cases "fst (heappop pq)") auto
  have r: "snd (heappop pq) = remove1 (acc, node, pm, path) pq"
    using heappop_min(3)[of pq] assms e by (simp add: s)
  have hp: "heappop pq = ((acc, node, pm, path), remove1 (acc, node, pm, path) pq)"
    using e r by (simp add: prod_eq_iff)
  show thesis
  proof (cases "settled visited (node, pm) acc")
    case True
    then show ?thesis using skip[of acc node pm path] by (simp add: s e step_def hp)
  next
    case False
    then show ?thesis using grow[of acc node pm path] by (simp add: s e step_def hp)
  qed
qed

lemma inv0_step:
  assumes nn: "nonneg kb metric" and tp: "0 \<le> tp" and inv: "inv0 U kb s" and ne: "fst s \<noteq> []"
  shows "inv0 U kb (step metric tp kb s)"
  using ne
proof (cases rule: step_cases[where metric = metric and tp = tp and kb = kb])
  case (skip acc node pm path)
  have sub: "set (remove1 (acc, node, pm, path) (fst s)) \<subseteq> set (fst s)"
    by (rule set_remove1_subset)
  from inv have i: "edge_keys kb \<subseteq> U" "key_of ` set (fst s) \<subseteq> U" "dom (snd s) \<subseteq> U"
    "\<forall>e \<in> set (fst s). \<forall>k v. snd s k = Some v \<longrightarrow> v \<le> fst e"
    by (simp_all add: inv0_def)
  have "key_of ` set (remove1 (acc, node, pm, path) (fst s)) \<subseteq> U"
    using image_mono[OF sub, of key_of] i(2) by (rule order_trans)
  moreover have "\<forall>e \<in> set (remove1 (acc, node, pm, path) (fst s)). \<forall>k v. snd s k = Some v \<longrightarrow> v \<le> fst e"
    using i(4) sub by blast
  ultimately show ?thesis using i(1,3) unfolding skip(3) inv0_def by simp
next
  case (grow acc node pm path)
  let ?e = "(acc, node, pm, path)"
  have e_in: "?e \<in> set (fst s)" using heappop_min(1)[OF ne] grow(1) by simp
  have e_min: "acc \<le> fst e'" if "e' \<in> set (fst s)" for e'
    using fst_le[OF heappop_min(2)[OF ne that]] grow(1) by simp
  have sub: "set (remove1 ?e (fst s)) \<subseteq> set (fst s)" by (rule set_remove1_subset)
  have succ_key: "key_of e' \<in> U" and succ_acc: "acc \<le> fst e'"
    if "e' \<in> set (successors metric tp kb ?e)" for e'
  proof -
    from successorsD[OF that] obtain n p where np: "((node, n), p) \<in> set (edges kb)"
      and e': "e' = (acc + attr metric p + penalty_of tp pm (mode p), n, Some (mode p), path @ [n])"
      by blast
    from np have "(n, Some (mode p)) \<in> edge_keys kb" by (force simp: edge_keys_def)
    with inv show "key_of e' \<in> U" by (auto simp: inv0_def e' key_of_def)
    from np nn have "0 \<le> attr metric p" by (auto simp: nonneg_def)
    with penalty_nonneg[OF tp, of pm "mode p"] show "acc \<le> fst e'" by (simp add: e')
  qed
  have old_le: "v \<le> fst e'" if "snd s k = Some v" "e' \<in> set (fst s)" for k v e'
    using inv that unfolding inv0_def by blast
  have "key_of ?e \<in> U" using inv e_in by (auto simp: inv0_def)
  then have key: "(node, pm) \<in> U" by (simp add: key_of_def)
  show ?thesis
    unfolding grow(3) inv0_def
  proof (intro conjI ballI allI impI)
    show "edge_keys kb \<subseteq> U" using inv by (simp add: inv0_def)
    have "key_of ` set (fst s) \<subseteq> U"
      using inv by (simp add: inv0_def)
    with image_mono[OF sub, of key_of] have "key_of ` set (remove1 ?e (fst s)) \<subseteq> U"
      by (rule order_trans)
    moreover have "key_of ` set (successors metric tp kb ?e) \<subseteq> U"
      using succ_key by blast
    ultimately show "key_of ` set (fst (remove1 ?e (fst s) @ successors metric tp kb ?e, (snd s)((node, pm) \<mapsto> acc))) \<subseteq> U"
      by (simp add: image_Un)
    show "dom (snd (remove1 ?e (fst s) @ successors metric tp kb ?e, (snd s)((node, pm) \<mapsto> acc))) \<subseteq> U"
      using inv key by (auto simp: inv0_def)
  next
    fix e' k v
    assume e': "e' \<in> set (fst (remove1 ?e (fst s) @ successors metric tp kb ?e, (snd s)((node, pm) \<mapsto> acc)))"
      and kv: "snd (remove1 ?e (fst s) @ successors metric tp kb ?e, (snd s)((node, pm) \<mapsto> acc)) k = Some v"
    from e' have "e' \<in> set (remove1 ?e (fst s)) \<or> e' \<in> set (successors metric tp kb ?e)"
      by simp
    then have acc_le: "acc \<le> fst e'"
      using sub e_min succ_acc by blast
    show "v \<le> fst e'"
    proof (cases "k = (node, pm)")
      case True
      with kv have "v = acc" by simp
      with acc_le show ?thesis by simp
    next
      case False
      with kv have "snd s k = Some v" by simp
      from old_le[OF this e_in] have "v \<le> acc" by simp
      with acc_le show ?thesis by simp
    qed
  qed
qed

lemma rank_step:
  assumes fin: "finite U" and inv: "inv0 U kb s" and ne: "fst s \<noteq> []"
  shows "rank U (step metric tp kb s) < rank U s"
  using ne
proof (cases rule: step_cases[where metric = metric and tp = tp and kb = kb])
  case (skip acc node pm path)
  have "(acc, node, pm, path) \<in> set (fst s)"
    using heappop_min(1)[OF ne] skip(1) by simp
  then have "length (remove1 (acc, node, pm, path) (fst s)) < length (fst s)"
    using ne by (simp add: length_remove1)
  then show ?thesis by (simp add: skip(3) rank_def)
next
  case (grow acc node pm path)
  let ?e = "(acc, node, pm, path)"
  have e_in: "?e \<in> set (fst s)" using heappop_min(1)[OF ne] grow(1) by simp
  have "key_of ?e \<in> key_of ` set (fst s)" using e_in by (rule imageI)
  then have key: "(node, pm) \<in> U" using inv by (auto simp: inv0_def key_of_def)
  have fresh: "(node, pm) \<notin> dom (snd s)"
  proof
    assume "(node, pm) \<in> dom (snd s)"
    then obtain v where v: "snd s (node, pm) = Some v" by auto
    with inv e_in have "v \<le> fst ?e" unfolding inv0_def by blast
    with v grow(2) show False by (simp add: settled_def)
  qed
  have eq: "U - dom ((snd s)((node, pm) \<mapsto> acc)) = (U - dom (snd s)) - {(node, pm)}"
    by auto
  have "(node, pm) \<in> U - dom (snd s)" using key fresh by simp
  moreover have "finite (U - dom (snd s))" using fin by simp
  ultimately have "card ((U - dom (snd s)) - {(node, pm)}) < card (U - dom (snd s))"
    by (rule card_Diff1_less[rotated])
  then have "card (U - dom ((snd s)((node, pm) \<mapsto> acc))) < card (U - dom (snd s))"
    by (simp only: eq)
  then show ?thesis by (simp add: grow(3) rank_def)
qed

lemma loop_rule:
  assumes vm: "valid_metric metric" and nn: "nonneg kb metric" and tp: "0 \<le> tp"
    and fin: "finite U"
    and pres: "\<And>s. P s \<Longrightarrow> inv0 U kb s \<Longrightarrow> running goal s \<Longrightarrow> P (step metric tp kb s)"
    and inv: "inv0 U kb s" and P: "P s"
  shows "\<exists>r s'. dijkstra_loop goal metric tp kb (fst s) (snd s) = Some (r, kb) \<and>
           P s' \<and> inv0 U kb s' \<and> final goal s' r"
  using inv P
proof (induction "rank U s" arbitrary: s rule: less_induct)
  case less
  show ?case
  proof (cases "running goal s")
    case False
    then obtain r where "dijkstra_loop goal metric tp kb (fst s) (snd s) = Some (r, kb)"
      "final goal s r"
      using loop_final[of goal "fst s" "snd s" metric tp kb] by auto
    with less.prems show ?thesis by blast
  next
    case True
    then have ne: "fst s \<noteq> []" by (simp add: running_def)
    let ?s = "step metric tp kb s"
    have "rank U ?s < rank U s" by (rule rank_step[OF fin less.prems(1) ne])
    moreover have "inv0 U kb ?s" by (rule inv0_step[OF nn tp less.prems(1) ne])
    moreover have "P ?s" by (rule pres[OF less.prems(2,1) True])
    ultimately obtain r s' where
      "dijkstra_loop goal metric tp kb (fst ?s) (snd ?s) = Some (r, kb)"
      "P s'" "inv0 U kb s'" "final goal s' r"
      using less.hyps[of ?s] by blast
    moreover have "dijkstra_loop goal metric tp kb (fst s) (snd s) =
        dijkstra_loop goal metric tp kb (fst ?s) (snd ?s)"
      using loop_unfold[OF vm, of goal "fst s" "snd s" tp kb] True by simp
    ultimately show ?thesis by metis
  qed
qed

lemma is_path_snoc:
  "path \<noteq> [] \<Longrightarrow> is_path kb (path @ [y]) = (is_path kb path \<and> contains kb (last path, y))"
  by (induction kb path rule: is_path.induct) auto

lemma path_cost_snoc:
  "path \<noteq> [] \<Longrightarrow> path_cost kb metric (path @ [y]) =
     path_cost kb metric path + (case lookup kb (last path, y) of None \<Rightarrow> 0 | Some p \<Rightarrow> attr metric p)"
  by (induction kb path rule: is_path.induct) auto

lemma is_path_nonempty: "is_path kb path \<Longrightarrow> path \<noteq> []"
  by auto

lemma route_snoc:
  assumes "route kb start node path" and "((node, n), p) \<in> set (edges kb)"
  shows "route kb start n (path @ [n])"
proof -
  from assms(1) have ne: "path \<noteq> []" and l: "last path = node" and h: "hd path = start"
    and ip: "is_path kb path"
    by (auto simp: route_def)
  from assms(2) have "contains kb (node, n)" by (force simp: contains_def)
  with ne l h ip show ?thesis by (simp add: route_def is_path_snoc)
qed

lemma reach_inv_step:
  assumes "reach_inv kb start s" and "fst s \<noteq> []"
  shows "reach_inv kb start (step metric tp kb s)"
  using assms(2)
proof (cases rule: step_cases[where metric = metric and tp = tp and kb = kb])
  case (skip acc node pm path)
  have "set (remove1 (acc, node, pm, path) (fst s)) \<subseteq> set (fst s)" by (rule set_remove1_subset)
  with assms(1) show ?thesis unfolding skip(3) reach_inv_def by auto
next
  case (grow acc node pm path)
  let ?e = "(acc, node, pm, path)"
  have e_in: "?e \<in> set (fst s)" using heappop_min(1)[OF assms(2)] grow(1) by simp
  with assms(1) have r: "route kb start node path" by (auto simp: reach_inv_def)
  have sub: "set (remove1 ?e (fst s)) \<subseteq> set (fst s)" by (rule set_remove1_subset)
  have "route kb start n' path'" if "(a', n', pm', path') \<in> set (successors metric tp kb ?e)"
    for a' n' pm' path'
    using successorsD[OF that] route_snoc[OF r] by auto
  with assms(1) sub show ?thesis unfolding grow(3) reach_inv_def by auto
qed

text \<open>
  C6. Whenever the goal is unreachable from the start in a knowledge base of the data model
  (time and cost non-negative), searched as the search is specified (metric \<open>time\<close> or
  \<open>cost\<close>, a non-negative transfer penalty), the search ends: the queue empties without the
  goal being popped, and the result is the absent path with the infinite total. Nothing is
  raised.
\<close>

theorem dijkstra_no_route:
  assumes "valid_metric metric" and "nonneg kb metric" and "0 \<le> tp"
    and "\<not> (\<exists>path. route kb start goal path)"
  shows "dijkstra kb start goal metric tp = Some (Inr (None, PInf), kb)"
proof -
  let ?U = "insert (start, None) (edge_keys kb)"
  let ?s = "([(0, start, None, [start])], Map.empty) :: entry list \<times> visited"
  have fin: "finite ?U" by (simp add: edge_keys_def)
  have inv: "inv0 ?U kb ?s" by (auto simp: inv0_def key_of_def)
  have P: "reach_inv kb start ?s" by (simp add: reach_inv_def route_def)
  obtain r s' where run: "dijkstra_loop goal metric tp kb (fst ?s) (snd ?s) = Some (r, kb)"
    and P': "reach_inv kb start s'" and fin': "final goal s' r"
    using loop_rule[OF assms(1-3) fin _ inv, where P = "reach_inv kb start" and goal = goal] P
      reach_inv_step[of kb start _ metric tp]
    by (auto simp: running_def)
  have "fst s' = []"
  proof (rule ccontr)
    assume ne: "fst s' \<noteq> []"
    obtain acc node pm path where e: "fst (heappop (fst s')) = (acc, node, pm, path)"
      by (cases "fst (heappop (fst s'))") auto
    with fin' ne have "node = goal" by (simp add: final_def)
    moreover have "(acc, node, pm, path) \<in> set (fst s')" using heappop_min(1)[OF ne] e by simp
    ultimately have "route kb start goal path" using P' by (auto simp: reach_inv_def)
    with assms(4) show False by blast
  qed
  with fin' have "r = Inr (None, PInf)" by (simp add: final_def)
  with run show ?thesis by (simp add: dijkstra_def)
qed

lemma route_closed:
  assumes closed: "\<And>a b. contains kb (a, b) \<Longrightarrow> a \<in> S \<Longrightarrow> b \<in> S"
    and r: "route kb start goal path" and s: "start \<in> S"
  shows "goal \<in> S"
proof -
  have "is_path kb path \<Longrightarrow> hd path \<in> S \<Longrightarrow> last path \<in> S" for path
    by (induction path rule: induct_list012) (auto dest: closed)
  with r s show ?thesis by (auto simp: route_def)
qed

text \<open>C6 at a goal that no edge of the fan network leads to.\<close>

theorem dijkstra_no_route_witness:
  "valid_metric ''time'' \<and> nonneg fan_kb ''time'' \<and> (0::real) \<le> 2 \<and>
   \<not> (\<exists>path. route fan_kb ''Y'' ''X'' path) \<and>
   dijkstra fan_kb ''Y'' ''X'' ''time'' 2 = Some (Inr (None, PInf), fan_kb)"
proof -
  have vm: "valid_metric ''time''" by (simp add: valid_metric_def)
  have nn: "nonneg fan_kb ''time''" by code_simp
  have tp: "(0::real) \<le> 2" by simp
  have keys: "contains fan_kb (a, b) \<longleftrightarrow>
      (a, b) \<in> {(''X'', ''Y''), (''X'', ''Z''), (''Y'', ''W'')}" for a b
    by (auto simp: contains_def fan_kb_def add_edge_def init_def)
  have un: "\<not> (\<exists>path. route fan_kb ''Y'' ''X'' path)"
  proof
    assume "\<exists>path. route fan_kb ''Y'' ''X'' path"
    then obtain path where "route fan_kb ''Y'' ''X'' path" ..
    then have "''X'' \<in> {''Y'', ''W''}"
      by (rule route_closed[rotated]) (auto simp: keys)
    then show False by simp
  qed
  from dijkstra_no_route[OF vm nn tp un] vm nn tp un show ?thesis by simp
qed

lemma lookup_edge: "wf_kb kb \<Longrightarrow> (k, p) \<in> set (edges kb) \<Longrightarrow> lookup kb k = Some p"
  by (simp add: wf_kb_def lookup_def)

lemma contains_edge: "contains kb k \<Longrightarrow> \<exists>p. (k, p) \<in> set (edges kb) \<and> lookup kb k = Some p"
  by (auto simp: contains_lookup lookup_def dest: map_of_SomeD)

lemma penalty_zero: "penalty_of 0 pm m = 0"
  by (simp add: penalty_of_def)

lemma cov_step:
  assumes c: "cov s x d" and ne: "fst s \<noteq> []"
  shows "cov (step metric tp kb s) x d"
  using ne
proof (cases rule: step_cases[where metric = metric and tp = tp and kb = kb])
  case (skip acc node pm path)
  let ?e = "(acc, node, pm, path)"
  from skip(2) obtain v where v: "snd s (node, pm) = Some v" "v \<le> acc"
    by (auto simp: settled_def split: option.splits)
  from c consider (q) e where "e \<in> set (fst s)" "fst (snd e) = x" "fst e \<le> d"
    | (vis) pm' v' where "snd s (x, pm') = Some v'" "v' \<le> d"
    unfolding cov_def by blast
  then show ?thesis
  proof cases
    case q
    show ?thesis
    proof (cases "e = ?e")
      case True
      with q v have "snd s (x, pm) = Some v" "v \<le> d" by auto
      then show ?thesis unfolding cov_def skip(3) by auto
    next
      case False
      with q(1) have "e \<in> set (remove1 ?e (fst s))" by simp
      with q(2,3) show ?thesis unfolding cov_def skip(3) by auto
    qed
  next
    case vis
    then show ?thesis unfolding cov_def skip(3) by auto
  qed
next
  case (grow acc node pm path)
  let ?e = "(acc, node, pm, path)"
  from c consider (q) e where "e \<in> set (fst s)" "fst (snd e) = x" "fst e \<le> d"
    | (vis) pm' v' where "snd s (x, pm') = Some v'" "v' \<le> d"
    unfolding cov_def by blast
  then show ?thesis
  proof cases
    case q
    show ?thesis
    proof (cases "e = ?e")
      case True
      with q have "((snd s)((node, pm) \<mapsto> acc)) (x, pm) = Some acc" "acc \<le> d" by auto
      then show ?thesis unfolding cov_def grow(3) by (intro disjI2 exI[of _ pm] exI[of _ acc]) simp
    next
      case False
      with q(1) have "e \<in> set (remove1 ?e (fst s))" by simp
      with q(2,3) show ?thesis unfolding cov_def grow(3) by auto
    qed
  next
    case vis
    show ?thesis
    proof (cases "(x, pm') = (node, pm)")
      case True
      with vis grow(2) have "acc \<le> d" by (auto simp: settled_def)
      with True show ?thesis unfolding cov_def grow(3)
        by (intro disjI2 exI[of _ pm] exI[of _ acc]) simp
    next
      case False
      with vis show ?thesis unfolding cov_def grow(3)
        by (intro disjI2 exI[of _ pm'] exI[of _ v']) auto
    qed
  qed
qed

lemma opt_inv_step:
  assumes wf: "wf_kb kb" and inv: "opt_inv kb metric start goal s" and run: "running goal s"
  shows "opt_inv kb metric start goal (step metric 0 kb s)"
proof -
  from run have ne: "fst s \<noteq> []" by (simp add: running_def)
  from inv have o1: "\<And>acc node pm path. (acc, node, pm, path) \<in> set (fst s) \<Longrightarrow>
        route kb start node path \<and> path_cost kb metric path = acc"
    and o2: "cov s start 0"
    and o3: "\<And>x pm v y p. snd s (x, pm) = Some v \<Longrightarrow> ((x, y), p) \<in> set (edges kb) \<Longrightarrow>
        cov s y (v + attr metric p)"
    and o4: "\<And>pm. snd s (goal, pm) = None"
    unfolding opt_inv_def by blast+
  note cs = cov_step[OF _ ne, of _ _ metric 0 kb]
  show ?thesis
    using ne
  proof (cases rule: step_cases[where metric = metric and tp = 0 and kb = kb])
    case (skip acc node pm path)
    have sub: "set (remove1 (acc, node, pm, path) (fst s)) \<subseteq> set (fst s)"
      by (rule set_remove1_subset)
    have "\<forall>(acc, node, pm, path) \<in> set (fst (step metric 0 kb s)).
         route kb start node path \<and> path_cost kb metric path = acc"
      using o1 sub unfolding skip(3) by auto
    moreover have "cov (step metric 0 kb s) start 0" by (rule cs[OF o2])
    moreover have "cov (step metric 0 kb s) y (v + attr metric p)"
      if "snd (step metric 0 kb s) (x, pm') = Some v" "((x, y), p) \<in> set (edges kb)"
      for x pm' v y p
      using that cs[OF o3[of x pm' v y p]] by (simp add: skip(3))
    moreover have "snd (step metric 0 kb s) (goal, pm') = None" for pm'
      using o4 by (simp add: skip(3))
    ultimately show ?thesis unfolding opt_inv_def by blast
  next
    case (grow acc node pm path)
    let ?e = "(acc, node, pm, path)"
    have e_in: "?e \<in> set (fst s)" using heappop_min(1)[OF ne] grow(1) by simp
    from run grow(1) have ng: "node \<noteq> goal" by (simp add: running_def)
    from o1[OF e_in] have r: "route kb start node path" and pc: "path_cost kb metric path = acc"
      by simp_all
    have sub: "set (remove1 ?e (fst s)) \<subseteq> set (fst s)" by (rule set_remove1_subset)
    have new: "route kb start n' path' \<and> path_cost kb metric path' = a'"
      if "(a', n', pm', path') \<in> set (successors metric 0 kb ?e)" for a' n' pm' path'
    proof -
      from successorsD[OF that] obtain p where np: "((node, n'), p) \<in> set (edges kb)"
        and a': "a' = acc + attr metric p + penalty_of 0 pm (mode p)" and p': "path' = path @ [n']"
        by auto
      from r have "path \<noteq> []" "last path = node" by (auto simp: route_def)
      then have "path_cost kb metric path' = acc + attr metric p"
        using lookup_edge[OF wf np] pc by (simp add: p' path_cost_snoc)
      with route_snoc[OF r np] show ?thesis by (simp add: a' p' penalty_zero)
    qed
    have "\<forall>(acc, node, pm, path) \<in> set (fst (step metric 0 kb s)).
         route kb start node path \<and> path_cost kb metric path = acc"
      using o1 sub new unfolding grow(3) by auto
    moreover have "cov (step metric 0 kb s) start 0" by (rule cs[OF o2])
    moreover have "cov (step metric 0 kb s) y (v + attr metric p)"
      if vis: "snd (step metric 0 kb s) (x, pm') = Some v" and ed: "((x, y), p) \<in> set (edges kb)"
      for x pm' v y p
    proof (cases "(x, pm') = (node, pm)")
      case True
      with vis have v: "v = acc" by (simp add: grow(3))
      from True ed have "(y, p) \<in> set (neighbors kb node)" by (auto intro: neighborsI)
      then have "(acc + attr metric p + penalty_of 0 pm (mode p), y, Some (mode p), path @ [y])
          \<in> set (successors metric 0 kb ?e)"
        by (force simp: successors_def)
      then have "(acc + attr metric p, y, Some (mode p), path @ [y]) \<in> set (fst (step metric 0 kb s))"
        by (simp add: grow(3) penalty_zero)
      then show ?thesis unfolding cov_def v by force
    next
      case False
      with vis have "snd s (x, pm') = Some v" by (auto simp: grow(3) split: if_splits)
      from cs[OF o3[OF this ed]] show ?thesis .
    qed
    moreover have "snd (step metric 0 kb s) (goal, pm') = None" for pm'
      using o4 ng by (simp add: grow(3))
    ultimately show ?thesis unfolding opt_inv_def by blast
  qed
qed

lemma path_covered:
  assumes nn: "nonneg kb metric" and inv: "opt_inv kb metric start goal s"
    and r: "route kb start x w"
  shows "(\<exists>e \<in> set (fst s). fst e \<le> path_cost kb metric w) \<or>
         (\<exists>pm v. snd s (x, pm) = Some v \<and> v \<le> path_cost kb metric w)"
  using r
proof (induction w arbitrary: x rule: rev_induct)
  case Nil
  then show ?case by (simp add: route_def)
next
  case (snoc y w)
  from inv have o2: "cov s start 0"
    and o3: "\<And>x pm v y p. snd s (x, pm) = Some v \<Longrightarrow> ((x, y), p) \<in> set (edges kb) \<Longrightarrow>
        cov s y (v + attr metric p)"
    unfolding opt_inv_def by blast+
  from snoc.prems have x: "x = y" by (simp add: route_def)
  show ?case
  proof (cases "w = []")
    case True
    with snoc.prems have "y = start" by (simp add: route_def)
    with o2 True show ?thesis unfolding cov_def x by auto
  next
    case False
    with snoc.prems have ip: "is_path kb w" and c: "contains kb (last w, y)" and h: "hd w = start"
      by (auto simp: route_def is_path_snoc)
    then have rw: "route kb start (last w) w" by (simp add: route_def)
    from contains_edge[OF c] obtain p where p: "((last w, y), p) \<in> set (edges kb)"
      and l: "lookup kb (last w, y) = Some p" by blast
    from nn p have p0: "0 \<le> attr metric p" by (auto simp: nonneg_def)
    have cost: "path_cost kb metric (w @ [y]) = path_cost kb metric w + attr metric p"
      using False l by (simp add: path_cost_snoc)
    from snoc.IH[OF rw] show ?thesis
    proof
      assume "\<exists>e \<in> set (fst s). fst e \<le> path_cost kb metric w"
      then show ?thesis using p0 unfolding cost by force
    next
      assume "\<exists>pm v. snd s (last w, pm) = Some v \<and> v \<le> path_cost kb metric w"
      then obtain pm v where v: "snd s (last w, pm) = Some v" "v \<le> path_cost kb metric w"
        by blast
      from o3[OF v(1) p] have "cov s y (v + attr metric p)" .
      then show ?thesis using v(2) unfolding cost cov_def x by force
    qed
  qed
qed

text \<open>
  C2. For a knowledge base whose edges all carry the same mode, with transfer penalty 0, a
  recognised metric and non-negative attributes under it, the search between two connected
  nodes returns a route whose total is the shortest-path distance from start to goal.
\<close>

theorem dijkstra_shortest:
  assumes wf: "wf_kb kb"
    and uniform: "uniform_mode kb m"
    and vm: "valid_metric metric" and nn: "nonneg kb metric"
    and conn: "route kb start goal w"
  shows "\<exists>path d. dijkstra kb start goal metric 0 = Some (Inr (Some path, Fin d), kb) \<and>
           route kb start goal path \<and> path_cost kb metric path = d \<and>
           shortest_distance kb metric start goal d"
proof -
  let ?U = "insert (start, None) (edge_keys kb)"
  let ?s = "([(0, start, None, [start])], Map.empty) :: entry list \<times> visited"
  have fin: "finite ?U" by (simp add: edge_keys_def)
  have inv: "inv0 ?U kb ?s" by (auto simp: inv0_def key_of_def)
  have P: "opt_inv kb metric start goal ?s"
    by (simp add: opt_inv_def route_def cov_def)
  obtain r s' where run: "dijkstra_loop goal metric 0 kb (fst ?s) (snd ?s) = Some (r, kb)"
    and P': "opt_inv kb metric start goal s'" and fin': "final goal s' r"
    using loop_rule[OF vm nn _ fin _ inv, where P = "opt_inv kb metric start goal" and goal = goal
        and tp = 0] P opt_inv_step[OF wf, of metric start goal]
    by auto
  from P' have o1: "\<And>acc node pm path. (acc, node, pm, path) \<in> set (fst s') \<Longrightarrow>
        route kb start node path \<and> path_cost kb metric path = acc"
    and o4: "\<And>pm. snd s' (goal, pm) = None"
    unfolding opt_inv_def by blast+
  have covered: "\<exists>e \<in> set (fst s'). fst e \<le> path_cost kb metric w'"
    if "route kb start goal w'" for w'
    using path_covered[OF nn P' that] o4 by auto
  from covered[OF conn] have ne: "fst s' \<noteq> []" by auto
  obtain acc node pm path where e: "fst (heappop (fst s')) = (acc, node, pm, path)"
    by (cases "fst (heappop (fst s'))") auto
  with fin' ne have node: "node = goal" and r: "r = Inr (Some path, Fin acc)"
    by (simp_all add: final_def)
  have e_in: "(acc, goal, pm, path) \<in> set (fst s')"
    using heappop_min(1)[OF ne] e node by simp
  from o1[OF e_in] have route: "route kb start goal path" and cost: "path_cost kb metric path = acc"
    by simp_all
  have least: "acc \<le> path_cost kb metric w'" if "route kb start goal w'" for w'
  proof -
    from covered[OF that] obtain e' where e': "e' \<in> set (fst s')" "fst e' \<le> path_cost kb metric w'"
      by blast
    from fst_le[OF heappop_min(2)[OF ne e'(1)]] e have "acc \<le> fst e'" by simp
    with e'(2) show ?thesis by simp
  qed
  have "shortest_distance kb metric start goal acc"
    unfolding shortest_distance_def using route cost least by blast
  with run r route cost show ?thesis by (simp add: dijkstra_def)
qed


text \<open>C2 at a network of metro connections only, where the direct connection is not the shortest.\<close>

theorem dijkstra_shortest_witness:
  "wf_kb metro_kb \<and> uniform_mode metro_kb ''metro'' \<and>
   valid_metric ''time'' \<and> nonneg metro_kb ''time'' \<and>
   route metro_kb ''A'' ''D'' [''A'', ''D''] \<and>
   dijkstra metro_kb ''A'' ''D'' ''time'' 0 =
     Some (Inr (Some [''A'', ''B'', ''C'', ''D''], Fin 12), metro_kb) \<and>
   shortest_distance metro_kb ''time'' ''A'' ''D'' 12"
proof -
  have wf: "wf_kb metro_kb" by code_simp
  have un: "uniform_mode metro_kb ''metro''" by code_simp
  have vm: "valid_metric ''time''" by (simp add: valid_metric_def)
  have nn: "nonneg metro_kb ''time''" by code_simp
  have r: "route metro_kb ''A'' ''D'' [''A'', ''D'']" by code_simp
  have run: "dijkstra metro_kb ''A'' ''D'' ''time'' 0 =
     Some (Inr (Some [''A'', ''B'', ''C'', ''D''], Fin 12), metro_kb)" by code_simp
  from dijkstra_shortest[OF wf un vm nn r] run
  have "shortest_distance metro_kb ''time'' ''A'' ''D'' 12" by auto
  with wf un vm nn r run show ?thesis by blast
qed

subsection \<open>Outside the data model\<close>

text \<open>
  A set of states that the loop never leaves, none of which ends it: from such a state the
  search does not return.
\<close>

lemma loop_diverges:
  assumes vm: "valid_metric metric"
    and closed: "\<And>s. D s \<Longrightarrow> running goal s \<and> D (step metric tp kb s)"
    and D: "D (pq, visited)"
  shows "dijkstra_loop goal metric tp kb pq visited = None"
proof (rule ccontr)
  assume "dijkstra_loop goal metric tp kb pq visited \<noteq> None"
  then obtain y where y: "dijkstra_loop goal metric tp kb pq visited = Some y" by auto
  have "\<not> (goal' = goal \<and> metric' = metric \<and> tp' = tp \<and> kb' = kb \<and> D (pq', visited'))"
    if "dijkstra_loop goal' metric' tp' kb' pq' visited' = Some y'"
    for goal' metric' tp' kb' pq' visited' y'
  proof (rule dijkstra_loop.raw_induct[OF _ that,
        where P = "\<lambda>goal' metric' tp' kb' pq' visited' y'.
          \<not> (goal' = goal \<and> metric' = metric \<and> tp' = tp \<and> kb' = kb \<and> D (pq', visited'))"])
    fix f :: "string \<Rightarrow> string \<Rightarrow> real \<Rightarrow> KnowledgeBase \<Rightarrow> entry list \<Rightarrow> visited \<Rightarrow>
      ((error + route) \<times> KnowledgeBase) option"
    fix goal' metric' tp' kb' pq' visited' y'
    assume IH: "\<And>goal' metric' tp' kb' pq' visited' y'.
        f goal' metric' tp' kb' pq' visited' = Some y' \<Longrightarrow>
        \<not> (goal' = goal \<and> metric' = metric \<and> tp' = tp \<and> kb' = kb \<and> D (pq', visited'))"
    assume body: "(if pq' = [] then Some (Inr (None, PInf), kb')
      else case heappop pq' of
           ((acc, node, prev_mode, path), pq1) \<Rightarrow>
             if node = goal' then Some (Inr (Some path, Fin acc), kb')
             else if settled visited' (node, prev_mode) acc
                  then f goal' metric' tp' kb' pq1 visited'
                  else case expand metric' tp' acc prev_mode path (neighbors kb' node) pq1 of
                       Inl e \<Rightarrow> Some (Inl e, kb')
                       | Inr pq2 \<Rightarrow>
                           f goal' metric' tp' kb' pq2 (visited'((node, prev_mode) \<mapsto> acc))) =
     Some y'"
    show "\<not> (goal' = goal \<and> metric' = metric \<and> tp' = tp \<and> kb' = kb \<and> D (pq', visited'))"
    proof
      assume a: "goal' = goal \<and> metric' = metric \<and> tp' = tp \<and> kb' = kb \<and> D (pq', visited')"
      then have d: "D (pq', visited')" by simp
      from closed[OF d] have run: "running goal (pq', visited')"
        and d': "D (step metric tp kb (pq', visited'))" by simp_all
      from body a run
      have "f goal metric tp kb (fst (step metric tp kb (pq', visited')))
              (snd (step metric tp kb (pq', visited'))) = Some y'"
        by (auto simp: running_def step_def successors_def expand_valid[OF vm]
            split: prod.splits if_splits)
      from IH[OF this] d' show False by simp
    qed
  qed
  from this[OF y] D show False by simp
qed

lemma neighbors_neg_kb:
  "neighbors neg_kb ''A'' = [(''B'', \<lparr>mode = ''metro'', time = - 1, cost = 0\<rparr>)]"
  "neighbors neg_kb ''B'' = [(''A'', \<lparr>mode = ''metro'', time = - 1, cost = 0\<rparr>)]"
  by (simp_all add: neg_kb_def add_edge_def init_def neighbors_def)

lemma spinning_step:
  assumes "spinning s"
  shows "running ''Z'' s \<and> spinning (step ''time'' 2 neg_kb s)"
proof -
  from assms obtain acc node pm path where q: "fst s = [(acc, node, pm, path)]"
    and node: "node = ''A'' \<or> node = ''B''" and pm: "pm = None \<or> pm = Some ''metro''"
    and low: "\<And>k v. snd s k = Some v \<Longrightarrow> acc < v"
    unfolding spinning_def by blast
  obtain visited where s: "s = ([(acc, node, pm, path)], visited)"
    using q by (cases s) auto
  have ns: "\<not> settled visited (node, pm) acc"
    using low[of "(node, pm)"] by (auto simp: settled_def s split: option.splits)
  have pen: "penalty_of 2 pm ''metro'' = 0"
    using pm by (auto simp: penalty_of_def)
  have run: "running ''Z'' s"
    using node by (auto simp: running_def s heappop_single)
  have low': "acc - 1 < v" if "visited k = Some v" for k v
    using low[of k v] that by (simp add: s)
  have "spinning (step ''time'' 2 neg_kb s)"
    using node ns pen unfolding s
    by (auto simp: step_def heappop_single successors_def neighbors_neg_kb attr_def spinning_def
        low' split: if_splits)
  with run show ?thesis by simp
qed

lemma neighbors_alt_kb:
  "neighbors alt_kb ''A'' = [(''B'', \<lparr>mode = ''metro'', time = 0, cost = 0\<rparr>)]"
  "neighbors alt_kb ''B'' = [(''A'', \<lparr>mode = ''bus'', time = 0, cost = 0\<rparr>)]"
  by (simp_all add: alt_kb_def add_edge_def init_def neighbors_def)

lemma alternating_step:
  assumes "alternating s"
  shows "running ''Z'' s \<and> alternating (step ''time'' (- 1) alt_kb s)"
proof -
  from assms obtain acc node pm path where q: "fst s = [(acc, node, pm, path)]"
    and shape: "node = ''A'' \<and> pm = None \<and> snd s = Map.empty \<or>
         (node = ''B'' \<and> pm = Some ''metro'' \<or> node = ''A'' \<and> pm = Some ''bus'') \<and>
         (\<forall>k v. snd s k = Some v \<and> k \<noteq> (''A'', None) \<longrightarrow> acc < v)"
    unfolding alternating_def by blast
  obtain visited where s: "s = ([(acc, node, pm, path)], visited)"
    using q by (cases s) auto
  have run: "running ''Z'' s"
    using shape by (auto simp: running_def s heappop_single)
  from shape consider (first) "node = ''A''" "pm = None" "visited = Map.empty"
    | (later) "node = ''B'' \<and> pm = Some ''metro'' \<or> node = ''A'' \<and> pm = Some ''bus''"
        "\<And>k v. visited k = Some v \<Longrightarrow> k \<noteq> (''A'', None) \<Longrightarrow> acc < v"
    unfolding s by auto
  then have "alternating (step ''time'' (- 1) alt_kb s)"
  proof cases
    case first
    then show ?thesis
      by (simp add: s step_def heappop_single settled_def successors_def neighbors_alt_kb
          attr_def penalty_of_def alternating_def)
  next
    case later
    have ns: "\<not> settled visited (node, pm) acc"
      using later(1) later(2)[of "(node, pm)"] by (auto simp: settled_def split: option.splits)
    have low': "acc - 1 < v" if "visited k = Some v" "k \<noteq> (''A'', None)" for k v
      using later(2)[OF that] by simp
    show ?thesis
      using later(1) ns unfolding s
      by (auto simp: step_def heappop_single successors_def neighbors_alt_kb attr_def
          penalty_of_def alternating_def low' split: if_splits)
  qed
  with run show ?thesis by simp
qed

text \<open>
  The bounds of the no-route result are used: outside the data model, at goals that no edge
  leads to, a negative time on a two-way connection makes the accumulated value fall at every
  step, so that no state is ever settled and the search does not return; a negative penalty
  on alternating modes does likewise; and a metric that the attribute dictionary does not
  have raises KeyError at the first neighbour expansion.
\<close>

lemma search_outside_data_model:
  "''Z'' \<notin> set (map (snd \<circ> fst) (edges neg_kb)) \<and>
   dijkstra neg_kb ''A'' ''Z'' ''time'' 2 = None \<and>
   ''Z'' \<notin> set (map (snd \<circ> fst) (edges alt_kb)) \<and>
   dijkstra alt_kb ''A'' ''Z'' ''time'' (- 1) = None \<and>
   ''X'' \<notin> set (map (snd \<circ> fst) (edges fan_kb)) \<and>
   dijkstra fan_kb ''Y'' ''X'' ''distance'' 2 = Some (Inl KeyError, fan_kb)"
proof -
  have "spinning ([(0, ''A'', None, [''A''])], Map.empty)"
    by (simp add: spinning_def)
  then have a: "dijkstra neg_kb ''A'' ''Z'' ''time'' 2 = None"
    unfolding dijkstra_def
    by (intro loop_diverges[where D = spinning] spinning_step) (simp_all add: valid_metric_def)
  have "alternating ([(0, ''A'', None, [''A''])], Map.empty)"
    by (simp add: alternating_def)
  then have b: "dijkstra alt_kb ''A'' ''Z'' ''time'' (- 1) = None"
    unfolding dijkstra_def
    by (intro loop_diverges[where D = alternating] alternating_step) (simp_all add: valid_metric_def)
  have c: "dijkstra fan_kb ''Y'' ''X'' ''distance'' 2 = Some (Inl KeyError, fan_kb)"
    by code_simp
  have d: "''Z'' \<notin> set (map (snd \<circ> fst) (edges neg_kb))"
    "''Z'' \<notin> set (map (snd \<circ> fst) (edges alt_kb))"
    "''X'' \<notin> set (map (snd \<circ> fst) (edges fan_kb))"
    by code_simp+
  from a b c d show ?thesis by simp
qed

end
